theory Spec2Isabelle
  imports Main "HOL-Library.Word"
begin

unbundle bit_operations_syntax

section \<open>Data model\<close>

text \<open>
  The library is written for the Microsoft compiler (it uses the \<open>min\<close> macro of that
  compiler's \<open>stdlib.h\<close>), where \<open>int\<close> and \<open>long\<close> are both 32 bits wide. An
  \<open>unsigned long\<close> is therefore a 32-bit word, \<open>MAX_NUM_VARIABLES\<close> is 32, and the
  \<open>int\<close> expression \<open>1 << i\<close> converted to \<open>unsigned long\<close> keeps its bit pattern.

  Integer arithmetic is two's complement arithmetic on 32 bits, as that compiler computes
  it; in particular \<open>1 << 31\<close> is the word with only the top bit set and
  \<open>(1 << 31) - 1\<close> the word with all other bits set.

  For a shift count of 32 or more C leaves \<open>1 << i\<close> undefined. The shifts inside the
  loops have a count below \<open>numVars\<close>, which \<open>ReduceLogic\<close> bounds by 32, and are
  modelled by the total function \<open>bitMask\<close>. The shift \<open>1 << numVars\<close> itself reaches
  the count 32 when \<open>numVars\<close> is 32: it is modelled by \<open>shiftOne\<close>, which has no
  value there, and a function that evaluates it has the outcome \<open>Undefined\<close>.

  Counters that only count up to a bound held in a word (\<open>iInput\<close>, \<open>iBitTest\<close>,
  \<open>iBitDC\<close>, \<open>iTerm\<close>, \<open>numTerms\<close>, \<open>numVars\<close>) cannot overflow and are natural
  numbers. Everything that is manipulated bit by bit, and the reference counts, are words.
\<close>

type_synonym ulong = "32 word"

datatype triLogic = LOGIC_FALSE | LOGIC_TRUE | LOGIC_DONT_CARE

datatype shrinquemStatus =
    STATUS_OKAY
  | STATUS_TOO_FEW_VARIABLES
  | STATUS_TOO_MANY_VARIABLES
  | STATUS_OUT_OF_MEMORY
  | STATUS_NULL_ARGUMENT

text \<open>A pointer field is \<open>None\<close> when it is \<open>NULL\<close> and \<open>Some\<close> of the buffer's contents otherwise.\<close>

record SumOfProducts =
  numVars :: nat
  numTerms :: nat
  terms :: "ulong list option"
  dontCares :: "ulong list option"
  equation :: "string option"

text \<open>
  A call either returns, or it does something that C leaves undefined: it dereferences a
  null pointer, or it shifts by the width of the shifted type.
\<close>

datatype 'a outcome = Undefined | Returns 'a

definition MAX_NUM_VARIABLES :: nat where
  "MAX_NUM_VARIABLES = 4 * 8"

text \<open>The expression \<open>1 << i\<close>, for a count below 32 and for any count.\<close>

definition bitMask :: "nat \<Rightarrow> ulong" where
  "bitMask i = push_bit i 1"

definition shiftOne :: "nat \<Rightarrow> ulong option" where
  "shiftOne i = (if i < 32 then Some (bitMask i) else None)"

text \<open>Reading through a buffer pointer.\<close>

definition arr :: "'a list option \<Rightarrow> 'a list" where
  "arr p = (case p of None \<Rightarrow> [] | Some xs \<Rightarrow> xs)"

section \<open>Stepping to the next minterm of a term\<close>

text \<open>
  The inner \<open>for (iBitDC = 0; iBitDC < lim; iBitDC++)\<close> loop, which the source writes out
  at each of its five uses: it clears the don't-care bits that are set, from bit 0 upwards,
  sets the first one that is clear and stops there. It returns the new term and the final
  \<open>iBitDC\<close>, which equals \<open>lim\<close> exactly when the loop ran to its end.
\<close>

function nextMinterm :: "nat \<Rightarrow> ulong \<Rightarrow> nat \<Rightarrow> ulong \<Rightarrow> ulong \<times> nat" where
  "nextMinterm lim dc iBitDC t =
     (if iBitDC < lim then
        (if dc AND bitMask iBitDC \<noteq> 0 then
           (if t AND bitMask iBitDC \<noteq> 0
            then nextMinterm lim dc (Suc iBitDC) (t AND NOT (bitMask iBitDC))
            else (t OR bitMask iBitDC, iBitDC))
         else nextMinterm lim dc (Suc iBitDC) t)
      else (t, iBitDC))"
  by pat_completeness auto
termination
  by (relation "measure (\<lambda>(lim, dc, iBitDC, t). lim - iBitDC)") auto

declare nextMinterm.simps [simp del]

text \<open>
  The value of the don't-care bits of \<open>t\<close> at positions \<open>i..<lim\<close>, read as a binary
  number with the lowest of these positions least significant, and the number of those
  positions.
\<close>

function freeValue :: "nat \<Rightarrow> ulong \<Rightarrow> nat \<Rightarrow> ulong \<Rightarrow> nat" where
  "freeValue lim dc i t =
     (if i < lim then
        (if bit dc i then (if bit t i then 1 else 0) + 2 * freeValue lim dc (Suc i) t
         else freeValue lim dc (Suc i) t)
      else 0)"
  by pat_completeness auto
termination
  by (relation "measure (\<lambda>(lim, dc, i, t). lim - i)") auto

declare freeValue.simps [simp del]

function freeBits :: "nat \<Rightarrow> ulong \<Rightarrow> nat \<Rightarrow> nat" where
  "freeBits lim dc i =
     (if i < lim then (if bit dc i then 1 else 0) + freeBits lim dc (Suc i) else 0)"
  by pat_completeness auto
termination
  by (relation "measure (\<lambda>(lim, dc, i). lim - i)") auto

declare freeBits.simps [simp del]

section \<open>Facts about single bits and about the step\<close>

lemma bitMask_test: "(w AND bitMask i \<noteq> 0) = bit w i"
  unfolding bitMask_def
  by (metis and_exp_eq_0_iff_not_bit push_bit_of_1)

lemma bitMask_test0: "(w AND bitMask i = 0) = (\<not> bit w i)"
  using bitMask_test [of w i] by blast

lemma bit_bitMask: "bit (bitMask i) k = (k = i \<and> i < 32)"
  by (auto simp: bitMask_def bit_simps)

lemma bit_ulong_bound: "bit (w :: ulong) k \<Longrightarrow> k < 32"
  by (auto dest: bit_imp_le_length)

lemma bit_clear: "bit (t AND NOT (bitMask i)) k = (bit t k \<and> k \<noteq> i)"
  by (auto simp: bit_simps bit_bitMask dest: bit_ulong_bound)

lemma bit_set: "bit (t OR bitMask i) k = (bit t k \<or> (k = i \<and> i < 32))"
  by (auto simp: bit_simps bit_bitMask)

lemma bit_flip: "bit (t XOR bitMask i) k = (bit t k \<noteq> (k = i \<and> i < 32))"
  by (auto simp: bit_simps bit_bitMask)

lemma nextMinterm_index:
  "nextMinterm lim dc i t = (t', j) \<Longrightarrow> i \<le> lim \<Longrightarrow> i \<le> j \<and> j \<le> lim"
proof (induction lim dc i t rule: nextMinterm.induct)
  case (1 lim dc i t)
  from "1.prems" "1.IH" show ?case
    by (subst (asm) nextMinterm.simps) (auto split: if_splits)
qed

text \<open>Only don't-care bits at positions \<open>i..<lim\<close> change.\<close>

lemma nextMinterm_fixed:
  "nextMinterm lim dc i t = (t', j) \<Longrightarrow> \<not> (bit dc k \<and> i \<le> k \<and> k < lim) \<Longrightarrow> bit t' k = bit t k"
proof (induction lim dc i t rule: nextMinterm.induct)
  case (1 lim dc i t)
  from "1.prems" "1.IH" show ?case
    by (subst (asm) nextMinterm.simps)
       (auto split: if_splits simp: bitMask_test bitMask_test0 bit_set bit_clear dest: bit_ulong_bound)
qed

lemma freeValue_cong:
  "(\<And>k. i \<le> k \<Longrightarrow> k < lim \<Longrightarrow> bit dc k \<Longrightarrow> bit t k = bit t' k) \<Longrightarrow>
   freeValue lim dc i t = freeValue lim dc i t'"
proof (induction lim dc i t rule: freeValue.induct)
  case (1 lim dc i t)
  show ?case
    using 1 by (subst freeValue.simps, subst (2) freeValue.simps) auto
qed

lemma freeValue_bound: "freeValue lim dc i t < 2 ^ freeBits lim dc i"
proof (induction lim dc i t rule: freeValue.induct)
  case (1 lim dc i t)
  show ?case
    using 1 by (subst freeValue.simps, subst freeBits.simps) auto
qed

text \<open>
  The step is the successor of a binary counter held in the don't-care bits: it adds one to
  their value, and it runs to the end of the loop exactly when all of them were set, leaving
  them all clear.
\<close>

lemma nextMinterm_freeValue:
  "nextMinterm lim dc i t = (t', j) \<Longrightarrow> i \<le> lim \<Longrightarrow>
     (if j = lim then freeValue lim dc i t' = 0 \<and> Suc (freeValue lim dc i t) = 2 ^ freeBits lim dc i
      else freeValue lim dc i t' = Suc (freeValue lim dc i t))"
proof (induction lim dc i t arbitrary: t' j rule: nextMinterm.induct)
  case (1 lim dc i t)
  show ?case
  proof (cases "i < lim")
    case False
    with "1.prems" show ?thesis
      by (subst (asm) nextMinterm.simps) (simp add: freeValue.simps freeBits.simps)
  next
    case lt: True
    show ?thesis
    proof (cases "bit dc i")
      case False
      with lt "1.prems" have nm: "nextMinterm lim dc (Suc i) t = (t', j)"
        by (subst (asm) nextMinterm.simps) (simp add: bitMask_test)
      from "1.IH"(2) [OF lt _ nm] False lt show ?thesis
        by (simp add: bitMask_test0 freeValue.simps [of lim dc i] freeBits.simps [of lim dc i])
    next
      case dcb: True
      show ?thesis
      proof (cases "bit t i")
        case False
        with lt dcb "1.prems" have eq: "t' = t OR bitMask i" "j = i"
          by (subst (asm) nextMinterm.simps, simp add: bitMask_test bitMask_test0)+
        have i32: "i < 32" using dcb by (rule bit_ulong_bound)
        have "freeValue lim dc (Suc i) t' = freeValue lim dc (Suc i) t"
          unfolding eq by (rule freeValue_cong) (simp add: bit_set)
        then show ?thesis using lt dcb False eq i32
          by (simp add: freeValue.simps [of lim dc i] bit_set)
      next
        case tb: True
        let ?t1 = "t AND NOT (bitMask i)"
        from lt dcb tb "1.prems" have nm: "nextMinterm lim dc (Suc i) ?t1 = (t', j)"
          by (subst (asm) nextMinterm.simps) (simp add: bitMask_test)
        have ih: "if j = lim
                  then freeValue lim dc (Suc i) t' = 0 \<and>
                       Suc (freeValue lim dc (Suc i) ?t1) = 2 ^ freeBits lim dc (Suc i)
                  else freeValue lim dc (Suc i) t' = Suc (freeValue lim dc (Suc i) ?t1)"
          using "1.IH"(1) [OF lt _ _ nm] lt dcb tb by (simp add: bitMask_test)
        have c: "freeValue lim dc (Suc i) ?t1 = freeValue lim dc (Suc i) t"
          by (rule freeValue_cong) (simp add: bit_clear)
        have "bit t' i = bit ?t1 i"
          by (rule nextMinterm_fixed [OF nm]) simp
        then have nb: "\<not> bit t' i" by (simp add: bit_clear)
        show ?thesis using ih c nb lt dcb tb
          by (simp add: freeValue.simps [of lim dc i] freeBits.simps [of lim dc i] split: if_splits)
      qed
    qed
  qed
qed

lemma nextMinterm_decreases:
  assumes "nextMinterm lim dc 0 t = (t', j)" and "j \<noteq> lim"
  shows "2 ^ freeBits lim dc 0 - freeValue lim dc 0 t' < 2 ^ freeBits lim dc 0 - freeValue lim dc 0 t"
proof -
  from nextMinterm_freeValue [OF assms(1)] assms(2)
  have "freeValue lim dc 0 t' = Suc (freeValue lim dc 0 t)" by simp
  moreover have "freeValue lim dc 0 t' < 2 ^ freeBits lim dc 0" by (rule freeValue_bound)
  ultimately show ?thesis by simp
qed

section \<open>The loops over the minterms of a term\<close>

text \<open>
  Each \<open>while (1)\<close> loop of the source handles the minterm held in \<open>terms[iTerm]\<close>, steps
  to the next one and leaves when the step has run through all don't-care bits. The
  variant of all of them is the distance of the counter from its last value.

  \<open>minterms\<close> is the sequence of minterms such a loop handles when nothing makes it leave
  early.
\<close>

function minterms :: "nat \<Rightarrow> ulong \<Rightarrow> ulong \<Rightarrow> ulong list" where
  "minterms lim dc t =
     t # (case nextMinterm lim dc 0 t of
            (t', iBitDC) \<Rightarrow> if iBitDC = lim then [] else minterms lim dc t')"
  by pat_completeness auto
termination
  by (relation "measure (\<lambda>(lim, dc, t). 2 ^ freeBits lim dc 0 - freeValue lim dc 0 t)")
     (auto dest: nextMinterm_decreases [OF sym])

declare minterms.simps [simp del]

text \<open>
  \<open>ReduceLogic\<close>, the test whether bit \<open>iBitTest\<close> can become a don't-care: the loop leaves
  with the test bit flipped back at the first minterm whose output is false, and with the
  bit added to the don't-cares when there is none.
\<close>

function testMinterms :: "triLogic list \<Rightarrow> nat \<Rightarrow> ulong \<Rightarrow> ulong \<Rightarrow> ulong \<times> ulong" where
  "testMinterms truthTable iBitTest dc t =
     (if truthTable ! unat t = LOGIC_FALSE then (t XOR bitMask iBitTest, dc)
      else (case nextMinterm iBitTest dc 0 t of
              (t', iBitDC) \<Rightarrow>
                if iBitDC = iBitTest then (t', dc OR bitMask iBitTest)
                else testMinterms truthTable iBitTest dc t'))"
  by pat_completeness auto
termination
  by (relation "measure (\<lambda>(truthTable, lim, dc, t). 2 ^ freeBits lim dc 0 - freeValue lim dc 0 t)")
     (auto dest: nextMinterm_decreases [OF sym])

declare testMinterms.simps [simp del]

text \<open>The loop over \<open>iBitTest\<close>: flip the bit, clear the don't-care bits, test.\<close>

function expandTerm :: "triLogic list \<Rightarrow> nat \<Rightarrow> nat \<Rightarrow> ulong \<Rightarrow> ulong \<Rightarrow> ulong \<times> ulong" where
  "expandTerm truthTable nVars iBitTest t dc =
     (if iBitTest < nVars then
        (case testMinterms truthTable iBitTest dc ((t XOR bitMask iBitTest) AND NOT dc) of
           (t', dc') \<Rightarrow> expandTerm truthTable nVars (Suc iBitTest) t' dc')
      else (t, dc))"
  by pat_completeness auto
termination
  by (relation "measure (\<lambda>(truthTable, nVars, iBitTest, t, dc). nVars - iBitTest)") auto

declare expandTerm.simps [simp del]

text \<open>Marking the minterms of the finished term as resolved.\<close>

function markResolved :: "nat \<Rightarrow> ulong \<Rightarrow> ulong \<Rightarrow> triLogic list \<Rightarrow> ulong \<times> triLogic list" where
  "markResolved nVars dc t resolved =
     (case nextMinterm nVars dc 0 t of
        (t', iBitDC) \<Rightarrow>
          if iBitDC = nVars then (t', resolved[unat t := LOGIC_TRUE])
          else markResolved nVars dc t' (resolved[unat t := LOGIC_TRUE]))"
  by pat_completeness auto
termination
  by (relation "measure (\<lambda>(lim, dc, t, resolved). 2 ^ freeBits lim dc 0 - freeValue lim dc 0 t)")
     (auto dest: nextMinterm_decreases [OF sym])

declare markResolved.simps [simp del]

text \<open>
  The loop over the truth table. The source stores the new term at index \<open>numTerms\<close> of
  buffers of \<open>EstimateMaxNumOfMinterms\<close> elements and shortens the buffers to \<open>numTerms\<close>
  afterwards; the model appends to the lists of the terms stored so far, so \<open>numTerms\<close>
  is their length.
\<close>

function deriveTerms ::
  "triLogic list \<Rightarrow> nat \<Rightarrow> nat \<Rightarrow> nat \<Rightarrow> ulong list \<Rightarrow> ulong list \<Rightarrow> triLogic list
     \<Rightarrow> ulong list \<times> ulong list \<times> triLogic list" where
  "deriveTerms truthTable nVars sizeTruthtable iInput ts dcs resolved =
     (if iInput < sizeTruthtable then
        (if truthTable ! iInput = LOGIC_TRUE \<and> resolved ! iInput = LOGIC_FALSE then
           (case expandTerm truthTable nVars 0 (of_nat iInput) 0 of
              (t, dc) \<Rightarrow>
                (case markResolved nVars dc (t AND NOT dc) resolved of
                   (t', resolved') \<Rightarrow>
                     deriveTerms truthTable nVars sizeTruthtable (Suc iInput)
                       (ts @ [t']) (dcs @ [dc]) resolved'))
         else deriveTerms truthTable nVars sizeTruthtable (Suc iInput) ts dcs resolved)
      else (ts, dcs, resolved))"
  by pat_completeness auto
termination
  by (relation "measure (\<lambda>(truthTable, nVars, sizeTruthtable, iInput, ts, dcs, resolved).
                  sizeTruthtable - iInput)") auto

declare deriveTerms.simps [simp del]

section \<open>RemoveNonprimeImplicants\<close>

text \<open>Counting, and uncounting, the references of one term to its minterms.\<close>

function countRefs :: "nat \<Rightarrow> ulong \<Rightarrow> ulong \<Rightarrow> ulong list \<Rightarrow> ulong \<times> ulong list" where
  "countRefs nVars dc t refCntTable =
     (case nextMinterm nVars dc 0 t of
        (t', iBitDC) \<Rightarrow>
          if iBitDC = nVars then (t', refCntTable[unat t := refCntTable ! unat t + 1])
          else countRefs nVars dc t' (refCntTable[unat t := refCntTable ! unat t + 1]))"
  by pat_completeness auto
termination
  by (relation "measure (\<lambda>(lim, dc, t, refCntTable). 2 ^ freeBits lim dc 0 - freeValue lim dc 0 t)")
     (auto dest: nextMinterm_decreases [OF sym])

declare countRefs.simps [simp del]

function uncountRefs :: "nat \<Rightarrow> ulong \<Rightarrow> ulong \<Rightarrow> ulong list \<Rightarrow> ulong \<times> ulong list" where
  "uncountRefs nVars dc t refCntTable =
     (case nextMinterm nVars dc 0 t of
        (t', iBitDC) \<Rightarrow>
          if iBitDC = nVars then (t', refCntTable[unat t := refCntTable ! unat t - 1])
          else uncountRefs nVars dc t' (refCntTable[unat t := refCntTable ! unat t - 1]))"
  by pat_completeness auto
termination
  by (relation "measure (\<lambda>(lim, dc, t, refCntTable). 2 ^ freeBits lim dc 0 - freeValue lim dc 0 t)")
     (auto dest: nextMinterm_decreases [OF sym])

declare uncountRefs.simps [simp del]

text \<open>
  The search for a minterm that is referenced once. It leaves early, with \<open>isPrime\<close> set,
  at the first such minterm, and the term keeps the don't-care bits of that minterm.
\<close>

function findSoleRef :: "nat \<Rightarrow> ulong \<Rightarrow> ulong list \<Rightarrow> ulong \<Rightarrow> ulong \<times> bool" where
  "findSoleRef nVars dc refCntTable t =
     (if refCntTable ! unat t = 1 then (t, True)
      else (case nextMinterm nVars dc 0 t of
              (t', iBitDC) \<Rightarrow>
                if iBitDC = nVars then (t', False)
                else findSoleRef nVars dc refCntTable t'))"
  by pat_completeness auto
termination
  by (relation "measure (\<lambda>(lim, dc, refCntTable, t). 2 ^ freeBits lim dc 0 - freeValue lim dc 0 t)")
     (auto dest: nextMinterm_decreases [OF sym])

declare findSoleRef.simps [simp del]

text \<open>The first loop over the terms.\<close>

function countAllRefs ::
  "nat \<Rightarrow> nat \<Rightarrow> nat \<Rightarrow> ulong list \<Rightarrow> ulong list \<Rightarrow> ulong list \<Rightarrow> ulong list \<times> ulong list" where
  "countAllRefs nVars numOldTerms iOldTerm ts dcs refCntTable =
     (if iOldTerm < numOldTerms then
        (case countRefs nVars (dcs ! iOldTerm) (ts ! iOldTerm AND NOT (dcs ! iOldTerm))
                refCntTable of
           (t', refCntTable') \<Rightarrow>
             countAllRefs nVars numOldTerms (Suc iOldTerm) (ts[iOldTerm := t']) dcs refCntTable')
      else (ts, refCntTable))"
  by pat_completeness auto
termination
  by (relation "measure (\<lambda>(nVars, numOldTerms, iOldTerm, ts, dcs, refCntTable).
                  numOldTerms - iOldTerm)") auto

declare countAllRefs.simps [simp del]

text \<open>
  The second loop over the terms: a prime term is copied down to index \<open>iNewTerm\<close>, any
  other term is dropped from \<open>numTerms\<close> and its references are taken back at once.
\<close>

function removeTerms ::
  "nat \<Rightarrow> nat \<Rightarrow> nat \<Rightarrow> nat \<Rightarrow> nat \<Rightarrow> ulong list \<Rightarrow> ulong list \<Rightarrow> ulong list
     \<Rightarrow> nat \<times> ulong list \<times> ulong list" where
  "removeTerms nVars numOldTerms iOldTerm iNewTerm nTerms ts dcs refCntTable =
     (if iOldTerm < numOldTerms then
        (case findSoleRef nVars (dcs ! iOldTerm) refCntTable
                (ts ! iOldTerm AND NOT (dcs ! iOldTerm)) of
           (t', isPrime) \<Rightarrow>
             if isPrime then
               (if iOldTerm \<noteq> iNewTerm then
                  removeTerms nVars numOldTerms (Suc iOldTerm) (Suc iNewTerm) nTerms
                    ((ts[iOldTerm := t'])[iNewTerm := t']) (dcs[iNewTerm := dcs ! iOldTerm])
                    refCntTable
                else
                  removeTerms nVars numOldTerms (Suc iOldTerm) (Suc iNewTerm) nTerms
                    (ts[iOldTerm := t']) dcs refCntTable)
             else
               (case uncountRefs nVars (dcs ! iOldTerm) (t' AND NOT (dcs ! iOldTerm))
                       refCntTable of
                  (t'', refCntTable') \<Rightarrow>
                    removeTerms nVars numOldTerms (Suc iOldTerm) iNewTerm (nTerms - 1)
                      (ts[iOldTerm := t'']) dcs refCntTable'))
      else (nTerms, ts, dcs))"
  by pat_completeness auto
termination
  by (relation "measure (\<lambda>(nVars, numOldTerms, iOldTerm, iNewTerm, nTerms, ts, dcs, refCntTable).
                  numOldTerms - iOldTerm)") auto

declare removeTerms.simps [simp del]

text \<open>
  The allocator is a parameter: \<open>heap k\<close> tells whether the \<open>k\<close>-th request of a call of
  \<open>ReduceLogic\<close> is granted. Requests 0 to 2 are the \<open>calloc\<close> of \<open>resolved\<close> and the
  \<open>malloc\<close>s of \<open>terms\<close> and \<open>dontCares\<close>, 3 and 4 the \<open>realloc\<close>s at the end of
  \<open>ReduceLogic\<close>, 5 the \<open>calloc\<close> of \<open>refCntTable\<close>, 6 and 7 the \<open>realloc\<close>s at the end of
  \<open>RemoveNonprimeImplicants\<close>.

  \<open>shrink\<close> is \<open>p = realloc(buf, n * sizeof(long)); buf = (p || n == 0) ? p : buf\<close>, and
  \<open>written\<close> is a buffer that has been written through its pointer.
\<close>

definition shrink :: "bool \<Rightarrow> nat \<Rightarrow> ulong list \<Rightarrow> ulong list option" where
  "shrink granted n buf =
     (if granted then Some (take n buf) else if n = 0 then None else Some buf)"

definition written :: "'a list option \<Rightarrow> 'a list \<Rightarrow> 'a list option" where
  "written p buf = (case p of None \<Rightarrow> None | Some old \<Rightarrow> Some buf)"

text \<open>
  \<open>refCntTable\<close> is used without a check of \<open>calloc\<close>'s result, so a refused request is a
  null dereference as soon as there is a term to count. The function is static and
  \<open>ReduceLogic\<close> calls it after it has computed \<open>1 << numVars\<close> itself. The counters \<open>numTermsKept\<close> and
  \<open>numTermsRemoved\<close> are not part of the result and are left out.
\<close>

definition RemoveNonprimeImplicants ::
  "(nat \<Rightarrow> bool) \<Rightarrow> SumOfProducts \<Rightarrow> SumOfProducts outcome" where
  "RemoveNonprimeImplicants heap sumOfProducts =
     (let numOldTerms = numTerms sumOfProducts
      in case shiftOne (numVars sumOfProducts) of
           None \<Rightarrow> Undefined
         | Some sizeTruthtable \<Rightarrow>
             if 0 < numOldTerms \<and>
                (\<not> heap 5 \<or> terms sumOfProducts = None \<or> dontCares sumOfProducts = None)
             then Undefined
             else
               (case countAllRefs (numVars sumOfProducts) numOldTerms 0
                       (arr (terms sumOfProducts)) (arr (dontCares sumOfProducts))
                       (replicate (unat sizeTruthtable) 0) of
                  (ts, refCntTable) \<Rightarrow>
                    (case removeTerms (numVars sumOfProducts) numOldTerms 0 0 numOldTerms
                            ts (arr (dontCares sumOfProducts)) refCntTable of
                       (nTerms, ts', dcs') \<Rightarrow>
                         if nTerms \<noteq> numOldTerms then
                           Returns (sumOfProducts\<lparr>numTerms := nTerms,
                                      terms := shrink (heap 6) nTerms ts',
                                      dontCares := shrink (heap 7) nTerms dcs'\<rparr>)
                         else
                           Returns (sumOfProducts\<lparr>terms := written (terms sumOfProducts) ts',
                                      dontCares := written (dontCares sumOfProducts) dcs'\<rparr>))))"

section \<open>ReduceLogic\<close>

text \<open>The code after the label \<open>cleanupAndExit\<close> for a status other than \<open>STATUS_OKAY\<close>.\<close>

definition cleanupAndExit ::
  "shrinquemStatus \<Rightarrow> SumOfProducts \<Rightarrow> shrinquemStatus \<times> SumOfProducts" where
  "cleanupAndExit status sumOfProducts =
     (status, sumOfProducts\<lparr>numTerms := 0, terms := None, dontCares := None\<rparr>)"

text \<open>
  Both arguments are pointers. \<open>sumOfProducts\<close> is dereferenced on every path, also on
  the one taken for a null truth table.
\<close>

definition ReduceLogic ::
  "(nat \<Rightarrow> bool) \<Rightarrow> triLogic list option \<Rightarrow> SumOfProducts option
     \<Rightarrow> (shrinquemStatus \<times> SumOfProducts) outcome" where
  "ReduceLogic heap truthTable sumOfProducts =
     (case sumOfProducts of
        None \<Rightarrow> Undefined
      | Some sop \<Rightarrow>
          (case truthTable of
             None \<Rightarrow> Returns (cleanupAndExit STATUS_NULL_ARGUMENT sop)
           | Some tt \<Rightarrow>
               if numVars sop < 1 then Returns (cleanupAndExit STATUS_TOO_FEW_VARIABLES sop)
               else if numVars sop > MAX_NUM_VARIABLES
               then Returns (cleanupAndExit STATUS_TOO_MANY_VARIABLES sop)
               else
                 (case shiftOne (numVars sop) of
                    None \<Rightarrow> Undefined
                  | Some sizeTruthtable \<Rightarrow>
                      if \<not> heap 0 \<or> \<not> heap 1 \<or> \<not> heap 2
                      then Returns (cleanupAndExit STATUS_OUT_OF_MEMORY sop)
                      else
                        (case deriveTerms tt (numVars sop) (unat sizeTruthtable) 0 [] []
                                (replicate (unat sizeTruthtable) LOGIC_FALSE) of
                           (ts, dcs, resolved) \<Rightarrow>
                             (case RemoveNonprimeImplicants heap
                                     (sop\<lparr>numTerms := length ts,
                                          terms := shrink (heap 3) (length ts) ts,
                                          dontCares := shrink (heap 4) (length ts) dcs\<rparr>) of
                                Undefined \<Rightarrow> Undefined
                              | Returns sop' \<Rightarrow> Returns (STATUS_OKAY, sop'))))))"

section \<open>EvaluateSumOfProducts\<close>

function anyTermTrue :: "ulong \<Rightarrow> ulong list \<Rightarrow> ulong list \<Rightarrow> nat \<Rightarrow> nat \<Rightarrow> triLogic" where
  "anyTermTrue constrainedInput ts dcs nTerms iTerm =
     (if iTerm < nTerms then
        (if constrainedInput OR dcs ! iTerm = ts ! iTerm OR dcs ! iTerm then LOGIC_TRUE
         else anyTermTrue constrainedInput ts dcs nTerms (Suc iTerm))
      else LOGIC_FALSE)"
  by pat_completeness auto
termination
  by (relation "measure (\<lambda>(constrainedInput, ts, dcs, nTerms, iTerm). nTerms - iTerm)") auto

declare anyTermTrue.simps [simp del]

definition EvaluateSumOfProducts :: "SumOfProducts \<Rightarrow> ulong \<Rightarrow> triLogic outcome" where
  "EvaluateSumOfProducts sumOfProducts input =
     (case shiftOne (numVars sumOfProducts) of
        None \<Rightarrow> Undefined
      | Some p \<Rightarrow>
          (let inputMask = p - 1;
               constrainedInput = input AND inputMask
           in Returns (anyTermTrue constrainedInput (arr (terms sumOfProducts))
                         (arr (dontCares sumOfProducts)) (numTerms sumOfProducts) 0)))"

text \<open>
  The earlier evaluator, which takes the arrays as separate arguments and compares the
  input with each term bit by bit. \<open>firstMismatch\<close> is its loop over \<open>iVar\<close> and
  \<open>firstTrueTerm\<close> its loop over \<open>iTerm\<close>, each returning the index it stopped at.
\<close>

function firstMismatch :: "nat \<Rightarrow> ulong \<Rightarrow> ulong \<Rightarrow> ulong \<Rightarrow> nat \<Rightarrow> nat" where
  "firstMismatch nVars t dc input iVar =
     (if iVar < nVars then
        (if dc AND bitMask iVar \<noteq> 0 then firstMismatch nVars t dc input (Suc iVar)
         else if input AND bitMask iVar \<noteq> t AND bitMask iVar then iVar
         else firstMismatch nVars t dc input (Suc iVar))
      else iVar)"
  by pat_completeness auto
termination
  by (relation "measure (\<lambda>(nVars, t, dc, input, iVar). nVars - iVar)") auto

declare firstMismatch.simps [simp del]




section \<open>GenerateEquationString\<close>

text \<open>The loop that looks for a variable of the first term that is not a don't-care.\<close>

function firstCare :: "nat \<Rightarrow> ulong \<Rightarrow> nat \<Rightarrow> nat" where
  "firstCare nVars dc iVar =
     (if iVar < nVars then
        (if dc AND bitMask iVar = 0 then iVar else firstCare nVars dc (Suc iVar))
      else iVar)"
  by pat_completeness auto
termination
  by (relation "measure (\<lambda>(nVars, dc, iVar). nVars - iVar)") auto

declare firstCare.simps [simp del]

text \<open>The names given to the variables when the caller passes none: \<open>'A' + (char)iVar\<close>.\<close>

definition varNamesAuto :: "nat \<Rightarrow> string list" where
  "varNamesAuto nVars = map (\<lambda>iVar. [char_of (of_char CHR ''A'' + iVar)]) [0..<nVars]"

text \<open>
  The characters written for one term and for the whole equation. The source first runs
  the same two loops to add up the length of the string; the terminating 0 is not part of
  the modelled string.
\<close>

function termChars :: "nat \<Rightarrow> string list \<Rightarrow> ulong \<Rightarrow> ulong \<Rightarrow> nat \<Rightarrow> string" where
  "termChars nVars names t dc iVar =
     (if iVar < nVars then
        (if dc AND bitMask (nVars - iVar - 1) = 0 then
           names ! iVar @ (if t AND bitMask (nVars - iVar - 1) = 0 then [CHR 0x27] else [])
         else [])
        @ termChars nVars names t dc (Suc iVar)
      else [])"
  by pat_completeness auto
termination
  by (relation "measure (\<lambda>(nVars, names, t, dc, iVar). nVars - iVar)") auto

declare termChars.simps [simp del]

function equationChars ::
  "nat \<Rightarrow> string list \<Rightarrow> ulong list \<Rightarrow> ulong list \<Rightarrow> nat \<Rightarrow> nat \<Rightarrow> string" where
  "equationChars nVars names ts dcs nTerms iTerm =
     (if iTerm < nTerms then
        termChars nVars names (ts ! iTerm) (dcs ! iTerm) 0
        @ (if iTerm < nTerms - 1 then '' + '' else [])
        @ equationChars nVars names ts dcs nTerms (Suc iTerm)
      else [])"
  by pat_completeness auto
termination
  by (relation "measure (\<lambda>(nVars, names, ts, dcs, nTerms, iTerm). nTerms - iTerm)") auto

declare equationChars.simps [simp del]

text \<open>
  \<open>heap k\<close> is again the answer to the \<open>k\<close>-th request of the call. Writing "0" or "1"
  takes one request. Otherwise the array of sizes and the equation take one each, and the
  automatic names take one for their array and one per variable before that. The call
  returns \<open>STATUS_OUT_OF_MEMORY\<close> at the first request that is refused, and the equation is
  the last one requested. The struct pointer is taken to be valid.
\<close>

definition GenerateEquationString ::
  "(nat \<Rightarrow> bool) \<Rightarrow> SumOfProducts \<Rightarrow> string list option \<Rightarrow> shrinquemStatus \<times> SumOfProducts" where
  "GenerateEquationString heap sumOfProducts varNames =
     (let sop = sumOfProducts\<lparr>equation := None\<rparr>
      in if numTerms sop \<le> 0 then
           (if heap 0 then (STATUS_OKAY, sop\<lparr>equation := Some ''0''\<rparr>)
            else (STATUS_OUT_OF_MEMORY, sop))
         else if numTerms sop = 1 \<and>
                 firstCare (numVars sop) (arr (dontCares sop) ! 0) 0 = numVars sop then
           (if heap 0 then (STATUS_OKAY, sop\<lparr>equation := Some ''1''\<rparr>)
            else (STATUS_OUT_OF_MEMORY, sop))
         else
           (case varNames of
              Some names \<Rightarrow>
                if heap 0 \<and> heap 1 then
                  (STATUS_OKAY,
                   sop\<lparr>equation := Some (equationChars (numVars sop) names (arr (terms sop))
                                           (arr (dontCares sop)) (numTerms sop) 0)\<rparr>)
                else (STATUS_OUT_OF_MEMORY, sop)
            | None \<Rightarrow>
                if list_all heap [0..<numVars sop + 3] then
                  (STATUS_OKAY,
                   sop\<lparr>equation := Some (equationChars (numVars sop) (varNamesAuto (numVars sop))
                                           (arr (terms sop)) (arr (dontCares sop))
                                           (numTerms sop) 0)\<rparr>)
                else (STATUS_OUT_OF_MEMORY, sop)))"

section \<open>The minterms of a term\<close>

text \<open>
  A term covers the minterms that agree with its fixed bits where it has no don't-care bit:
  the comparison that \<open>EvaluateSumOfProducts\<close> makes. A word is confined to its low
  \<open>n\<close> bits when no other bit of it is set.
\<close>

definition covers :: "ulong \<Rightarrow> ulong \<Rightarrow> ulong \<Rightarrow> bool" where
  "covers t dc m \<longleftrightarrow> m OR dc = t OR dc"

definition confined :: "nat \<Rightarrow> ulong \<Rightarrow> bool" where
  "confined n w \<longleftrightarrow> take_bit n w = w"

lemma covers_bits: "covers t dc m \<longleftrightarrow> (\<forall>k. bit dc k \<or> bit m k = bit t k)"
proof
  assume "covers t dc m"
  then have "bit (m OR dc) k = bit (t OR dc) k" for k by (simp add: covers_def)
  then show "\<forall>k. bit dc k \<or> bit m k = bit t k" by (auto simp: bit_or_iff)
next
  assume "\<forall>k. bit dc k \<or> bit m k = bit t k"
  then have "m OR dc = t OR dc" by (intro bit_word_eqI) (auto simp: bit_or_iff)
  then show "covers t dc m" by (simp add: covers_def)
qed

lemma confined_bits: "confined n w \<longleftrightarrow> (\<forall>k. bit w k \<longrightarrow> k < n)"
proof
  assume "confined n w"
  then have "bit (take_bit n w) k = bit w k" for k by (simp add: confined_def)
  then show "\<forall>k. bit w k \<longrightarrow> k < n" by (auto simp: bit_take_bit_iff)
next
  assume "\<forall>k. bit w k \<longrightarrow> k < n"
  then have "take_bit n w = w" by (intro bit_word_eqI) (auto simp: bit_take_bit_iff)
  then show "confined n w" by (simp add: confined_def)
qed

lemma freeValue_inj:
  "(\<And>k. \<not> (bit dc k \<and> i \<le> k \<and> k < lim) \<Longrightarrow> bit x k = bit t k) \<Longrightarrow>
   freeValue lim dc i x = freeValue lim dc i t \<Longrightarrow> x = t"
proof (induction lim dc i x rule: freeValue.induct)
  case (1 lim dc i x)
  show ?case
  proof (cases "i < lim")
    case False
    with "1.prems"(1) have "bit x k = bit t k" for k by auto
    then show ?thesis by (simp add: bit_eq_iff)
  next
    case lt: True
    show ?thesis
    proof (cases "bit dc i")
      case False
      have "freeValue lim dc (Suc i) x = freeValue lim dc (Suc i) t"
        using "1.prems"(2) lt False
        by (simp add: freeValue.simps [of lim dc i])
      moreover have "bit x k = bit t k" if "\<not> (bit dc k \<and> Suc i \<le> k \<and> k < lim)" for k
        using that "1.prems"(1) [of k] False by (cases "k = i") auto
      ultimately show ?thesis using "1.IH"(2) [OF lt False] by blast
    next
      case True
      from "1.prems"(2) lt True
      have e: "(if bit x i then 1 else 0) + 2 * freeValue lim dc (Suc i) x
             = (if bit t i then 1 else 0) + 2 * freeValue lim dc (Suc i) t"
        by (simp add: freeValue.simps [of lim dc i])
      have bi: "bit x i = bit t i"
        using e by (auto split: if_splits) presburger+
      with e have "freeValue lim dc (Suc i) x = freeValue lim dc (Suc i) t"
        by (auto split: if_splits)
      moreover have "bit x k = bit t k" if "\<not> (bit dc k \<and> Suc i \<le> k \<and> k < lim)" for k
        using that "1.prems"(1) [of k] bi by (cases "k = i") auto
      ultimately show ?thesis using "1.IH"(1) [OF lt True] by blast
    qed
  qed
qed

text \<open>
  The sequence of minterms, from \<open>t\<close> on: every word that agrees with \<open>t\<close> outside the
  don't-care bits below \<open>lim\<close> and whose counter is not below that of \<open>t\<close>.
\<close>
lemma minterms_set:
  "x \<in> set (minterms lim dc t) \<longleftrightarrow>
     (\<forall>k. \<not> (bit dc k \<and> k < lim) \<longrightarrow> bit x k = bit t k) \<and>
     freeValue lim dc 0 t \<le> freeValue lim dc 0 x"
proof (induction lim dc t rule: minterms.induct)
  case (1 lim dc t)
  obtain t' j where nm: "nextMinterm lim dc 0 t = (t', j)" by (cases "nextMinterm lim dc 0 t")
  note fv = nextMinterm_freeValue [OF nm]
  have fixd: "bit t' k = bit t k" if "\<not> (bit dc k \<and> k < lim)" for k
    using nextMinterm_fixed [OF nm, of k] that by simp
  show ?case
  proof (cases "j = lim")
    case True
    then have ms: "minterms lim dc t = [t]"
      using nm by (subst minterms.simps) simp
    from fv True have last: "Suc (freeValue lim dc 0 t) = 2 ^ freeBits lim dc 0" by simp
    show ?thesis
    proof
      assume "x \<in> set (minterms lim dc t)"
      then show "(\<forall>k. \<not> (bit dc k \<and> k < lim) \<longrightarrow> bit x k = bit t k) \<and>
          freeValue lim dc 0 t \<le> freeValue lim dc 0 x"
        by (simp add: ms)
    next
      assume a: "(\<forall>k. \<not> (bit dc k \<and> k < lim) \<longrightarrow> bit x k = bit t k) \<and>
          freeValue lim dc 0 t \<le> freeValue lim dc 0 x"
      have "freeValue lim dc 0 x < 2 ^ freeBits lim dc 0" by (rule freeValue_bound)
      with a last have "freeValue lim dc 0 x = freeValue lim dc 0 t" by simp
      with a have "x = t" by (intro freeValue_inj [of dc 0 lim]) auto
      then show "x \<in> set (minterms lim dc t)" by (simp add: ms)
    qed
  next
    case False
    then have ms: "minterms lim dc t = t # minterms lim dc t'"
      using nm by (subst minterms.simps) simp
    from fv False have step: "freeValue lim dc 0 t' = Suc (freeValue lim dc 0 t)" by simp
    have ih: "x \<in> set (minterms lim dc t') \<longleftrightarrow>
       (\<forall>k. \<not> (bit dc k \<and> k < lim) \<longrightarrow> bit x k = bit t' k) \<and>
       freeValue lim dc 0 t' \<le> freeValue lim dc 0 x"
      using "1.IH" [OF nm [symmetric] False] .
    show ?thesis
    proof
      assume "x \<in> set (minterms lim dc t)"
      then consider "x = t" | "x \<in> set (minterms lim dc t')" by (auto simp: ms)
      then show "(\<forall>k. \<not> (bit dc k \<and> k < lim) \<longrightarrow> bit x k = bit t k) \<and>
          freeValue lim dc 0 t \<le> freeValue lim dc 0 x"
      proof cases
        case 1 then show ?thesis by simp
      next
        case 2 with ih step fixd show ?thesis by auto
      qed
    next
      assume a: "(\<forall>k. \<not> (bit dc k \<and> k < lim) \<longrightarrow> bit x k = bit t k) \<and>
          freeValue lim dc 0 t \<le> freeValue lim dc 0 x"
      show "x \<in> set (minterms lim dc t)"
      proof (cases "freeValue lim dc 0 x = freeValue lim dc 0 t")
        case True
        with a have "x = t" by (intro freeValue_inj [of dc 0 lim]) auto
        then show ?thesis by (simp add: ms)
      next
        case False
        with a step have "freeValue lim dc 0 t' \<le> freeValue lim dc 0 x" by simp
        with a fixd ih have "x \<in> set (minterms lim dc t')" by auto
        then show ?thesis by (simp add: ms)
      qed
    qed
  qed
qed

lemma minterms_values:
  "map (freeValue lim dc 0) (minterms lim dc t) = [freeValue lim dc 0 t ..< 2 ^ freeBits lim dc 0]"
proof (induction lim dc t rule: minterms.induct)
  case (1 lim dc t)
  obtain t' j where nm: "nextMinterm lim dc 0 t = (t', j)" by (cases "nextMinterm lim dc 0 t")
  note fv = nextMinterm_freeValue [OF nm]
  have b: "freeValue lim dc 0 t < 2 ^ freeBits lim dc 0" by (rule freeValue_bound)
  show ?case
  proof (cases "j = lim")
    case True
    then have ms: "minterms lim dc t = [t]"
      using nm by (subst minterms.simps) simp
    from fv True have "Suc (freeValue lim dc 0 t) = 2 ^ freeBits lim dc 0" by simp
    then have "[freeValue lim dc 0 t ..< 2 ^ freeBits lim dc 0] = [freeValue lim dc 0 t]"
      by (metis upt_Suc_append le_refl upt_conv_Nil order_less_irrefl append_Nil)
    then show ?thesis by (simp add: ms)
  next
    case False
    then have ms: "minterms lim dc t = t # minterms lim dc t'"
      using nm by (subst minterms.simps) simp
    from fv False have step: "freeValue lim dc 0 t' = Suc (freeValue lim dc 0 t)" by simp
    show ?thesis
      using "1.IH" [OF nm [symmetric] False] step b
      by (simp add: ms upt_conv_Cons)
  qed
qed

lemma minterms_distinct: "distinct (minterms lim dc t)"
proof -
  have "distinct (map (freeValue lim dc 0) (minterms lim dc t))"
    by (simp add: minterms_values)
  then show ?thesis by (simp add: distinct_map)
qed

lemma minterms_length:
  "length (minterms lim dc t) = 2 ^ freeBits lim dc 0 - freeValue lim dc 0 t"
proof -
  have "length (map (freeValue lim dc 0) (minterms lim dc t)) = 2 ^ freeBits lim dc 0 - freeValue lim dc 0 t"
    by (simp add: minterms_values)
  then show ?thesis by simp
qed

lemma minterms_head: "hd (minterms lim dc t) = t" "minterms lim dc t \<noteq> []"
  by (subst minterms.simps, simp)+

section \<open>The loops in terms of the sequence of minterms\<close>

text \<open>The term a loop leaves behind when it has run through all minterms.\<close>

definition finalTerm :: "nat \<Rightarrow> ulong \<Rightarrow> ulong \<Rightarrow> ulong" where
  "finalTerm lim dc t = fst (nextMinterm lim dc 0 (last (minterms lim dc t)))"

lemma minterms_wrap:
  "nextMinterm lim dc 0 t = (t', lim) \<Longrightarrow> minterms lim dc t = [t]"
  by (subst minterms.simps) simp

lemma minterms_step:
  "nextMinterm lim dc 0 t = (t', j) \<Longrightarrow> j \<noteq> lim \<Longrightarrow> minterms lim dc t = t # minterms lim dc t'"
  by (subst minterms.simps) simp

lemma finalTerm_wrap:
  "nextMinterm lim dc 0 t = (t', lim) \<Longrightarrow> finalTerm lim dc t = t'"
  by (simp add: finalTerm_def minterms_wrap)

lemma finalTerm_step:
  "nextMinterm lim dc 0 t = (t', j) \<Longrightarrow> j \<noteq> lim \<Longrightarrow> finalTerm lim dc t = finalTerm lim dc t'"
  by (simp add: finalTerm_def minterms_step minterms_head)

lemma finalTerm_props:
  "(\<not> (bit dc k \<and> k < lim) \<longrightarrow> bit (finalTerm lim dc t) k = bit t k) \<and>
   freeValue lim dc 0 (finalTerm lim dc t) = 0"
proof (induction lim dc t rule: minterms.induct)
  case (1 lim dc t)
  obtain t' j where nm: "nextMinterm lim dc 0 t = (t', j)" by (cases "nextMinterm lim dc 0 t")
  show ?case
  proof (cases "j = lim")
    case True
    with nm finalTerm_wrap have "finalTerm lim dc t = t'" by blast
    with nextMinterm_freeValue [OF nm] nextMinterm_fixed [OF nm, of k] True show ?thesis by simp
  next
    case False
    with nm finalTerm_step have "finalTerm lim dc t = finalTerm lim dc t'" by blast
    with "1.IH" [OF nm [symmetric] False] nextMinterm_fixed [OF nm, of k] show ?thesis by simp
  qed
qed

lemma freeValue_cleared:
  "(\<And>k. i \<le> k \<Longrightarrow> k < lim \<Longrightarrow> bit dc k \<Longrightarrow> \<not> bit t k) \<Longrightarrow> freeValue lim dc i t = 0"
proof (induction lim dc i t rule: freeValue.induct)
  case (1 lim dc i t)
  show ?case using 1 by (subst freeValue.simps) auto
qed

lemma bit_and_not: "bit (t AND NOT dc) k = (bit t k \<and> \<not> bit dc k)" for t dc :: ulong
  by (auto simp: bit_and_iff bit_not_iff dest: bit_ulong_bound)

lemma freeValue_and_not: "freeValue lim dc 0 (t AND NOT dc) = 0"
  by (rule freeValue_cleared) (simp add: bit_and_not)

lemma finalTerm_confined:
  assumes "confined lim dc" shows "finalTerm lim dc t = t AND NOT dc"
proof (rule freeValue_inj [of dc 0 lim])
  fix k assume "\<not> (bit dc k \<and> 0 \<le> k \<and> k < lim)"
  with assms have "\<not> bit dc k" by (auto simp: confined_bits)
  with finalTerm_props [of dc k lim t] show "bit (finalTerm lim dc t) k = bit (t AND NOT dc) k"
    by (simp add: bit_and_not)
next
  show "freeValue lim dc 0 (finalTerm lim dc t) = freeValue lim dc 0 (t AND NOT dc)"
    using finalTerm_props [of dc 0 lim t] by (simp add: freeValue_and_not)
qed

text \<open>Started with the dont-care bits cleared, the loops handle the minterms the term covers.\<close>
lemma minterms_covers:
  assumes "confined lim dc"
  shows "set (minterms lim dc (t AND NOT dc)) = {m. covers t dc m}"
proof -
  have "x \<in> set (minterms lim dc (t AND NOT dc)) \<longleftrightarrow> covers t dc x" for x
  proof -
    have "x \<in> set (minterms lim dc (t AND NOT dc)) \<longleftrightarrow>
        (\<forall>k. \<not> (bit dc k \<and> k < lim) \<longrightarrow> bit x k = bit (t AND NOT dc) k)"
      by (simp add: minterms_set freeValue_and_not)
    also have "\<dots> \<longleftrightarrow> (\<forall>k. bit dc k \<or> bit x k = bit t k)"
      using assms by (auto simp: bit_and_not confined_bits)
    finally show ?thesis by (simp add: covers_bits)
  qed
  then show ?thesis by blast
qed

lemma markResolved_eq:
  "markResolved lim dc t resolved =
     (finalTerm lim dc t, fold (\<lambda>m r. r[unat m := LOGIC_TRUE]) (minterms lim dc t) resolved)"
proof (induction lim dc t resolved rule: markResolved.induct)
  case (1 lim dc t resolved)
  obtain t' j where nm: "nextMinterm lim dc 0 t = (t', j)" by (cases "nextMinterm lim dc 0 t")
  show ?case
  proof (cases "j = lim")
    case True
    with nm show ?thesis
      by (subst markResolved.simps) (simp add: finalTerm_wrap minterms_wrap)
  next
    case False
    with nm "1.IH" [OF nm [symmetric] False] show ?thesis
      by (subst markResolved.simps) (simp add: finalTerm_step minterms_step)
  qed
qed

lemma countRefs_eq:
  "countRefs lim dc t rc =
     (finalTerm lim dc t, fold (\<lambda>m r. r[unat m := r ! unat m + 1]) (minterms lim dc t) rc)"
proof (induction lim dc t rc rule: countRefs.induct)
  case (1 lim dc t rc)
  obtain t' j where nm: "nextMinterm lim dc 0 t = (t', j)" by (cases "nextMinterm lim dc 0 t")
  show ?case
  proof (cases "j = lim")
    case True
    with nm show ?thesis
      by (subst countRefs.simps) (simp add: finalTerm_wrap minterms_wrap)
  next
    case False
    with nm "1.IH" [OF nm [symmetric] False] show ?thesis
      by (subst countRefs.simps) (simp add: finalTerm_step minterms_step)
  qed
qed

lemma uncountRefs_eq:
  "uncountRefs lim dc t rc =
     (finalTerm lim dc t, fold (\<lambda>m r. r[unat m := r ! unat m - 1]) (minterms lim dc t) rc)"
proof (induction lim dc t rc rule: uncountRefs.induct)
  case (1 lim dc t rc)
  obtain t' j where nm: "nextMinterm lim dc 0 t = (t', j)" by (cases "nextMinterm lim dc 0 t")
  show ?case
  proof (cases "j = lim")
    case True
    with nm show ?thesis
      by (subst uncountRefs.simps) (simp add: finalTerm_wrap minterms_wrap)
  next
    case False
    with nm "1.IH" [OF nm [symmetric] False] show ?thesis
      by (subst uncountRefs.simps) (simp add: finalTerm_step minterms_step)
  qed
qed

lemma testMinterms_eq:
  "testMinterms tt b dc t =
     (case find (\<lambda>m. tt ! unat m = LOGIC_FALSE) (minterms b dc t) of
        Some m \<Rightarrow> (m XOR bitMask b, dc)
      | None \<Rightarrow> (finalTerm b dc t, dc OR bitMask b))"
proof (induction tt b dc t rule: testMinterms.induct)
  case (1 tt b dc t)
  obtain t' j where nm: "nextMinterm b dc 0 t = (t', j)" by (cases "nextMinterm b dc 0 t")
  show ?case
  proof (cases "tt ! unat t = LOGIC_FALSE")
    case True
    then show ?thesis
      by (subst testMinterms.simps, subst minterms.simps) simp
  next
    case nf: False
    show ?thesis
    proof (cases "j = b")
      case True
      with nm nf show ?thesis
        by (subst testMinterms.simps) (simp add: finalTerm_wrap minterms_wrap)
    next
      case False
      with nm nf "1.IH" [OF nf nm [symmetric] False] finalTerm_step [OF nm False] show ?thesis
        by (subst testMinterms.simps) (simp add: minterms_step split: option.split)
    qed
  qed
qed

lemma findSoleRef_eq:
  "findSoleRef lim dc rc t =
     (case find (\<lambda>m. rc ! unat m = 1) (minterms lim dc t) of
        Some m \<Rightarrow> (m, True)
      | None \<Rightarrow> (finalTerm lim dc t, False))"
proof (induction lim dc rc t rule: findSoleRef.induct)
  case (1 lim dc rc t)
  obtain t' j where nm: "nextMinterm lim dc 0 t = (t', j)" by (cases "nextMinterm lim dc 0 t")
  show ?case
  proof (cases "rc ! unat t = 1")
    case True
    then show ?thesis
      by (subst findSoleRef.simps, subst minterms.simps) simp
  next
    case nf: False
    show ?thesis
    proof (cases "j = lim")
      case True
      with nm nf show ?thesis
        by (subst findSoleRef.simps) (simp add: finalTerm_wrap minterms_wrap)
    next
      case False
      with nm nf "1.IH" [OF nf nm [symmetric] False] finalTerm_step [OF nm False] show ?thesis
        by (subst findSoleRef.simps) (simp add: minterms_step split: option.split)
    qed
  qed
qed

section \<open>Expanding a term\<close>

lemma find_None_iff2: "find P xs = None \<longleftrightarrow> (\<forall>x\<in>set xs. \<not> P x)"
  by (induction xs) auto

lemma find_SomeD: "find P xs = Some x \<Longrightarrow> x \<in> set xs \<and> P x"
  by (induction xs) (auto split: if_splits)

lemma covers_and_not: "covers (t AND NOT dc) dc m = covers t dc m"
  by (auto simp: covers_bits bit_and_not)

lemma covers_confined:
  "covers t dc m \<Longrightarrow> confined n t \<Longrightarrow> confined n dc \<Longrightarrow> confined n m"
  unfolding covers_bits confined_bits by metis

text \<open>One pass of the loop over iBitTest.\<close>
lemma testMinterms_step:
  assumes tm: "testMinterms tt b dc ((t XOR bitMask b) AND NOT dc) = (t', dc')"
    and cf: "confined b dc" and b: "b < 32"
  shows "(\<exists>m. covers (t XOR bitMask b) dc m \<and> tt ! unat m = LOGIC_FALSE) \<and>
           dc' = dc \<and> (\<forall>m. covers t' dc m = covers t dc m) \<and>
           (\<forall>k. b < k \<longrightarrow> bit t' k = bit t k)
         \<or> (\<forall>m. covers (t XOR bitMask b) dc m \<longrightarrow> tt ! unat m \<noteq> LOGIC_FALSE) \<and>
           dc' = dc OR bitMask b \<and>
           (\<forall>m. covers t' dc' m = (covers t dc m \<or> covers (t XOR bitMask b) dc m)) \<and>
           (\<forall>k. b < k \<longrightarrow> bit t' k = bit t k)"
proof -
  let ?u = "t XOR bitMask b"
  have ms: "set (minterms b dc (?u AND NOT dc)) = {m. covers ?u dc m}"
    by (rule minterms_covers [OF cf])
  have nb: "\<not> bit dc b" using cf by (auto simp: confined_bits)
  show ?thesis
  proof (cases "find (\<lambda>m. tt ! unat m = LOGIC_FALSE) (minterms b dc (?u AND NOT dc))")
    case None
    then have nofalse: "\<not> (\<exists>m. covers ?u dc m \<and> tt ! unat m = LOGIC_FALSE)"
      using ms by (auto simp: find_None_iff2)
    from tm None have r: "t' = ?u AND NOT dc" "dc' = dc OR bitMask b"
      by (simp_all add: testMinterms_eq finalTerm_confined [OF cf])
    have "covers t' dc' m = (covers t dc m \<or> covers ?u dc m)" for m
    proof -
      have "covers t' dc' m \<longleftrightarrow> (\<forall>k. bit dc k \<or> k = b \<or> bit m k = bit t k)"
        unfolding r covers_bits using b nb
        by (simp add: bit_and_not bit_set bit_flip) metis
      also have "\<dots> \<longleftrightarrow> (covers t dc m \<or> covers ?u dc m)"
      proof (cases "bit m b = bit t b")
        case True
        then show ?thesis using b nb
          unfolding covers_bits by (simp add: bit_flip) metis
      next
        case False
        then show ?thesis using b nb
          unfolding covers_bits by (simp add: bit_flip) metis
      qed
      finally show ?thesis .
    qed
    moreover have "bit t' k = bit t k" if "b < k" for k
      using that cf unfolding r by (auto simp: bit_and_not bit_flip confined_bits)
    ultimately have "dc' = dc OR bitMask b \<and>
              (\<forall>m. covers t' dc' m = (covers t dc m \<or> covers (t XOR bitMask b) dc m)) \<and>
              (\<forall>k. b < k \<longrightarrow> bit t' k = bit t k)"
      using r by simp
    with nofalse show ?thesis by blast
  next
    case (Some x)
    from find_SomeD [OF Some] ms have x: "covers ?u dc x" "tt ! unat x = LOGIC_FALSE" by auto
    from tm Some have r: "t' = x XOR bitMask b" "dc' = dc"
      by (simp_all add: testMinterms_eq)
    have "covers t' dc m = covers t dc m" for m
      using x(1) b unfolding r covers_bits by (simp add: bit_flip) metis
    moreover have "bit t' k = bit t k" if "b < k" for k
    proof -
      from that cf have "\<not> bit dc k" by (auto simp: confined_bits)
      moreover from x(1) have "bit dc k \<or> bit x k = bit ?u k" by (simp add: covers_bits)
      ultimately show ?thesis using that unfolding r by (auto simp: bit_flip)
    qed
    ultimately have "dc' = dc \<and> (\<forall>m. covers t' dc m = covers t dc m) \<and>
              (\<forall>k. b < k \<longrightarrow> bit t' k = bit t k)"
      using r by simp
    moreover have "\<exists>m. covers ?u dc m \<and> tt ! unat m = LOGIC_FALSE" using x by blast
    ultimately show ?thesis by blast
  qed
qed

lemma confined_mono: "confined b w \<Longrightarrow> b \<le> n \<Longrightarrow> confined n w"
  by (auto simp: confined_bits)

lemma expandTerm_inv:
  "expandTerm tt n b t dc = (t', dc') \<Longrightarrow> confined b dc \<Longrightarrow> b \<le> n \<Longrightarrow> n \<le> 32 \<Longrightarrow>
   confined n t \<Longrightarrow> (\<forall>m. covers t dc m \<longrightarrow> tt ! unat m \<noteq> LOGIC_FALSE) \<Longrightarrow>
   confined n dc' \<and> confined n t' \<and> (\<forall>m. covers t dc m \<longrightarrow> covers t' dc' m) \<and>
   (\<forall>m. covers t' dc' m \<longrightarrow> tt ! unat m \<noteq> LOGIC_FALSE)"
proof (induction tt n b t dc rule: expandTerm.induct)
  case (1 tt n b t dc)
  show ?case
  proof (cases "b < n")
    case False
    with "1.prems" have "t' = t" "dc' = dc" "b = n"
      by (simp_all add: expandTerm.simps [of tt n b])
    with "1.prems" show ?thesis by simp
  next
    case lt: True
    obtain t1 dc1 where tm: "testMinterms tt b dc ((t XOR bitMask b) AND NOT dc) = (t1, dc1)"
      by (cases "testMinterms tt b dc ((t XOR bitMask b) AND NOT dc)")
    from "1.prems"(1) lt tm have ex: "expandTerm tt n (Suc b) t1 dc1 = (t', dc')"
      by (simp add: expandTerm.simps [of tt n b])
    from lt "1.prems" have b32: "b < 32" by simp
    note st = testMinterms_step [OF tm "1.prems"(2) b32]
    have hi: "\<forall>k. b < k \<longrightarrow> bit t1 k = bit t k" using st by blast
    have c1: "confined (Suc b) dc1"
      using st "1.prems"(2) by (auto simp: confined_bits bit_set less_Suc_eq)
    have c2: "confined n t1"
      using hi "1.prems"(5) lt by (auto simp: confined_bits) (metis not_less_iff_gr_or_eq less_trans)
    have c3: "\<forall>m. covers t1 dc1 m \<longrightarrow> tt ! unat m \<noteq> LOGIC_FALSE"
      using st "1.prems"(6) by auto
    have c4: "\<forall>m. covers t dc m \<longrightarrow> covers t1 dc1 m"
      using st by auto
    from "1.IH" [OF lt tm [symmetric] ex c1 _ "1.prems"(4) c2 c3] lt c4
    show ?thesis by auto
  qed
qed

lemma mask_Suc_bitMask: "b < 32 \<Longrightarrow> (mask b :: ulong) OR bitMask b = mask (Suc b)"
  by (intro bit_word_eqI) (auto simp: bit_or_iff bit_mask_iff bit_bitMask less_Suc_eq)

lemma confined_mask: "confined b (mask b :: ulong)"
  by (auto simp: confined_bits bit_mask_iff)

text \<open>When no minterm is false every bit becomes a don't-care.\<close>
lemma expandTerm_all:
  "expandTerm tt n b t dc = (t', dc') \<Longrightarrow> dc = mask b \<Longrightarrow> b \<le> n \<Longrightarrow> n \<le> 32 \<Longrightarrow>
   confined n t \<Longrightarrow> (\<forall>m. confined n m \<longrightarrow> tt ! unat m \<noteq> LOGIC_FALSE) \<Longrightarrow> dc' = mask n"
proof (induction tt n b t dc rule: expandTerm.induct)
  case (1 tt n b t dc)
  show ?case
  proof (cases "b < n")
    case False
    with "1.prems" have "dc' = dc" "b = n"
      by (simp_all add: expandTerm.simps [of tt n b])
    with "1.prems" show ?thesis by simp
  next
    case lt: True
    obtain t1 dc1 where tm: "testMinterms tt b dc ((t XOR bitMask b) AND NOT dc) = (t1, dc1)"
      by (cases "testMinterms tt b dc ((t XOR bitMask b) AND NOT dc)")
    from "1.prems"(1) lt tm have ex: "expandTerm tt n (Suc b) t1 dc1 = (t', dc')"
      by (simp add: expandTerm.simps [of tt n b])
    from lt "1.prems" have b32: "b < 32" by simp
    have cf: "confined b dc" using "1.prems"(2) by (simp add: confined_mask)
    note st = testMinterms_step [OF tm cf b32]
    have cu: "confined n (t XOR bitMask b)"
      using "1.prems"(5) lt by (auto simp: confined_bits bit_flip)
    have "\<forall>m. covers (t XOR bitMask b) dc m \<longrightarrow> tt ! unat m \<noteq> LOGIC_FALSE"
      using covers_confined [OF _ cu confined_mono [OF cf]] lt "1.prems"(6) by auto
    with st have d1: "dc1 = mask (Suc b)" and hi: "\<forall>k. b < k \<longrightarrow> bit t1 k = bit t k"
      using "1.prems"(2) b32 by (auto simp: mask_Suc_bitMask)
    have c2: "confined n t1"
      using hi "1.prems"(5) lt by (auto simp: confined_bits) (metis not_less_iff_gr_or_eq less_trans)
    from "1.IH" [OF lt tm [symmetric] ex d1 _ "1.prems"(4) c2 "1.prems"(6)] lt
    show ?thesis by auto
  qed
qed

lemma fold_mark_length:
  "length (fold (\<lambda>m r. r[unat m := v]) xs r) = length r"
  by (induction xs arbitrary: r) auto

lemma fold_mark_nth:
  "j < length r \<Longrightarrow>
   fold (\<lambda>m r. r[unat m := v]) xs r ! j = (if \<exists>m\<in>set xs. unat m = j then v else r ! j)"
  for xs :: "ulong list"
proof (induction xs arbitrary: r)
  case Nil
  then show ?case by simp
next
  case (Cons x xs)
  then show ?case by (auto simp: nth_list_update)
qed

section \<open>The contract of the enumeration\<close>

lemma freeBits_card: "freeBits lim dc i = card {k. i \<le> k \<and> k < lim \<and> bit dc k}"
proof (induction lim dc i rule: freeBits.induct)
  case (1 lim dc i)
  show ?case
  proof (cases "i < lim")
    case False
    then have "{k. i \<le> k \<and> k < lim \<and> bit dc k} = {}" by auto
    with False show ?thesis by (simp add: freeBits.simps [of lim dc i])
  next
    case True
    let ?S = "{k. Suc i \<le> k \<and> k < lim \<and> bit dc k}"
    have fin: "finite ?S" by simp
    have ni: "i \<notin> ?S" by simp
    have "{k. i \<le> k \<and> k < lim \<and> bit dc k} = (if bit dc i then insert i ?S else ?S)"
      using True by (auto simp: Suc_le_eq le_less)
    then have "card {k. i \<le> k \<and> k < lim \<and> bit dc k} = (if bit dc i then 1 else 0) + card ?S"
      using fin ni by simp
    with True "1.IH" [OF True] show ?thesis
      by (simp add: freeBits.simps [of lim dc i])
  qed
qed

lemma freeBits_confined: "confined lim dc \<Longrightarrow> freeBits lim dc 0 = card {k. bit dc k}"
proof -
  assume "confined lim dc"
  then have "{k. 0 \<le> k \<and> k < lim \<and> bit dc k} = {k. bit dc k}"
    by (auto simp: confined_bits)
  then show ?thesis by (simp add: freeBits_card)
qed

text \<open>
  Claim C5. For a don't-care mask confined to the low \<open>nVars\<close> bits, the loop over the
  minterms of a term, started as the source starts it with the don't-care bits cleared,
  handles \<open>2 ^ popcount dc\<close> minterms, all different, and they are the minterms the term
  covers: each combination of the free bits once. The first is the fixed bits with the
  free bits cleared, and the free bits of the minterms, read as a binary number with the
  lowest free bit least significant, count \<open>0, 1, 2, \<dots>\<close> up to the last combination.
  The loops that mark the resolved minterms and that count the references are total
  functions, handle exactly this sequence and leave the term at the starting pattern.
\<close>

theorem free_bit_enumerator:
  assumes "confined nVars dc"
  shows "length (minterms nVars dc (t AND NOT dc)) = 2 ^ card {k. bit dc k}
       \<and> distinct (minterms nVars dc (t AND NOT dc))
       \<and> set (minterms nVars dc (t AND NOT dc)) = {m. covers t dc m}
       \<and> hd (minterms nVars dc (t AND NOT dc)) = t AND NOT dc
       \<and> map (freeValue nVars dc 0) (minterms nVars dc (t AND NOT dc))
           = [0 ..< 2 ^ card {k. bit dc k}]
       \<and> markResolved nVars dc (t AND NOT dc) resolved
           = (t AND NOT dc,
              fold (\<lambda>m r. r[unat m := LOGIC_TRUE]) (minterms nVars dc (t AND NOT dc)) resolved)
       \<and> countRefs nVars dc (t AND NOT dc) refCntTable
           = (t AND NOT dc,
              fold (\<lambda>m r. r[unat m := r ! unat m + 1]) (minterms nVars dc (t AND NOT dc))
                refCntTable)"
proof -
  have a: "(t AND NOT dc) AND NOT dc = t AND NOT dc"
    by (intro bit_word_eqI) (auto simp: bit_and_not)
  show ?thesis
    using assms
    by (simp add: minterms_length minterms_distinct minterms_covers minterms_head
        minterms_values freeValue_and_not freeBits_confined markResolved_eq countRefs_eq
        finalTerm_confined a)
qed

text \<open>The term with fixed bits 111 and don't-care mask 101.\<close>

theorem free_bit_enumerator_witness:
  "confined 3 5
   \<and> length (minterms 3 5 (7 AND NOT 5)) = 2 ^ card {k. bit (5 :: ulong) k}
   \<and> minterms 3 5 (7 AND NOT 5) = [2, 3, 6, 7]"
proof -
  have c: "confined 3 5" by (simp add: confined_def)
  have "minterms 3 5 (7 AND NOT 5) = [2, 3, 6, 7]" by code_simp
  with c free_bit_enumerator [OF c, of 7] show ?thesis by simp
qed

section \<open>Scenario A\<close>

text \<open>
  Claim C4. For three variables and the truth table
  \<open>[True, True, False, True, True, False, False, False]\<close>, with every allocation granted,
  \<open>ReduceLogic\<close> returns \<open>STATUS_OKAY\<close> and exactly two terms. The first has the
  don't-care mask \<open>010\<close> and the fixed bits \<open>001\<close>: B is free, A is 0 and C is 1. The
  second has the don't-care mask \<open>100\<close> and the fixed bits \<open>000\<close>: A is free, B and C
  are 0. \<open>GenerateEquationString\<close> without variable names then writes the equation
  \<open>A'C + B'C'\<close>.
\<close>

theorem scenario_A:
  "ReduceLogic (\<lambda>k. True)
     (Some [LOGIC_TRUE, LOGIC_TRUE, LOGIC_FALSE, LOGIC_TRUE,
            LOGIC_TRUE, LOGIC_FALSE, LOGIC_FALSE, LOGIC_FALSE])
     (Some \<lparr>numVars = 3, numTerms = 0, terms = None, dontCares = None, equation = None\<rparr>)
   = Returns (STATUS_OKAY,
       \<lparr>numVars = 3, numTerms = 2, terms = Some [1, 0], dontCares = Some [2, 4],
        equation = None\<rparr>)
   \<and> GenerateEquationString (\<lambda>k. True)
       \<lparr>numVars = 3, numTerms = 2, terms = Some [1, 0], dontCares = Some [2, 4],
        equation = None\<rparr> None
     = (STATUS_OKAY,
        \<lparr>numVars = 3, numTerms = 2, terms = Some [1, 0], dontCares = Some [2, 4],
         equation = Some (''A'C + B'C'' @ [CHR 0x27])\<rparr>)"
  by code_simp

text \<open>The two terms give the outputs of the truth table back.\<close>

theorem scenario_A_witness:
  "(case ReduceLogic (\<lambda>k. True)
           (Some [LOGIC_TRUE, LOGIC_TRUE, LOGIC_FALSE, LOGIC_TRUE,
                  LOGIC_TRUE, LOGIC_FALSE, LOGIC_FALSE, LOGIC_FALSE])
           (Some \<lparr>numVars = 3, numTerms = 0, terms = None, dontCares = None,
                  equation = None\<rparr>) of
      Undefined \<Rightarrow> []
    | Returns (status, sop) \<Rightarrow> map (EvaluateSumOfProducts sop) [0, 1, 2, 3, 4, 5, 6, 7])
   = map Returns [LOGIC_TRUE, LOGIC_TRUE, LOGIC_FALSE, LOGIC_TRUE,
                  LOGIC_TRUE, LOGIC_FALSE, LOGIC_FALSE, LOGIC_FALSE]"
proof -
  have "map (EvaluateSumOfProducts
               \<lparr>numVars = 3, numTerms = 2, terms = Some [1, 0], dontCares = Some [2, 4],
                equation = None\<rparr>) [0, 1, 2, 3, 4, 5, 6, 7]
        = map Returns [LOGIC_TRUE, LOGIC_TRUE, LOGIC_FALSE, LOGIC_TRUE,
                       LOGIC_TRUE, LOGIC_FALSE, LOGIC_FALSE, LOGIC_FALSE]"
    by code_simp
  then show ?thesis by (simp add: scenario_A [THEN conjunct1])
qed

section \<open>The argument checks and the error path\<close>

text \<open>
  Claim C7. Whenever \<open>ReduceLogic\<close> returns a status other than \<open>STATUS_OKAY\<close>, whatever
  the allocator and the arguments were, the term set it leaves has \<open>numTerms\<close> 0 and null
  \<open>terms\<close> and \<open>dontCares\<close> pointers.
\<close>

theorem error_leaves_empty:
  assumes "ReduceLogic heap truthTable sumOfProducts = Returns (status, sop')"
    and "status \<noteq> STATUS_OKAY"
  shows "numTerms sop' = 0 \<and> terms sop' = None \<and> dontCares sop' = None"
  using assms
  by (auto simp: ReduceLogic_def cleanupAndExit_def
           split: option.splits if_splits prod.splits outcome.splits)

text \<open>The second request refused, on a struct with stale fields.\<close>

theorem error_leaves_empty_witness:
  "ReduceLogic (\<lambda>k. k \<noteq> 1) (Some [LOGIC_TRUE, LOGIC_FALSE])
     (Some \<lparr>numVars = 1, numTerms = 5, terms = Some [7], dontCares = Some [9], equation = None\<rparr>)
   = Returns (STATUS_OUT_OF_MEMORY,
       \<lparr>numVars = 1, numTerms = 0, terms = None, dontCares = None, equation = None\<rparr>)
   \<and> STATUS_OUT_OF_MEMORY \<noteq> STATUS_OKAY
   \<and> numTerms \<lparr>numVars = 1, numTerms = 0, terms = None, dontCares = None, equation = None\<rparr> = 0"
proof -
  have r: "ReduceLogic (\<lambda>k. k \<noteq> 1) (Some [LOGIC_TRUE, LOGIC_FALSE])
     (Some \<lparr>numVars = 1, numTerms = 5, terms = Some [7], dontCares = Some [9], equation = None\<rparr>)
   = Returns (STATUS_OUT_OF_MEMORY,
       \<lparr>numVars = 1, numTerms = 0, terms = None, dontCares = None, equation = None\<rparr>)"
    by (simp add: ReduceLogic_def cleanupAndExit_def MAX_NUM_VARIABLES_def shiftOne_def)
  have s: "STATUS_OUT_OF_MEMORY \<noteq> STATUS_OKAY" by simp
  from error_leaves_empty [OF r s] r show ?thesis by simp
qed

text \<open>
  Claim C6, where the code departs from it. With a null \<open>sumOfProducts\<close> no status is
  returned, \<open>STATUS_NULL_ARGUMENT\<close> or other: the pointer is dereferenced on every path,
  also after the check of the truth table has set \<open>STATUS_NULL_ARGUMENT\<close>.
\<close>

theorem null_sink_undefined: "ReduceLogic heap truthTable None = Undefined"
  by (simp add: ReduceLogic_def)

theorem null_sink_undefined_witness:
  "ReduceLogic (\<lambda>k. True) None None = Undefined
   \<and> ReduceLogic (\<lambda>k. True) (Some [LOGIC_TRUE, LOGIC_FALSE]) None = Undefined"
  by (simp add: null_sink_undefined)

lemma argument_checks:
  "ReduceLogic heap None (Some sop)
     = Returns (STATUS_NULL_ARGUMENT, sop\<lparr>numTerms := 0, terms := None, dontCares := None\<rparr>)"
  "(\<exists>s. ReduceLogic heap truthTable (Some sop) = Returns (STATUS_NULL_ARGUMENT, s))
     \<longleftrightarrow> truthTable = None"
  "(\<exists>s. ReduceLogic heap (Some tt) (Some sop) = Returns (STATUS_TOO_FEW_VARIABLES, s))
     \<longleftrightarrow> numVars sop < 1"
  "(\<exists>s. ReduceLogic heap (Some tt) (Some sop) = Returns (STATUS_TOO_MANY_VARIABLES, s))
     \<longleftrightarrow> MAX_NUM_VARIABLES < numVars sop"
  by (auto simp: ReduceLogic_def cleanupAndExit_def MAX_NUM_VARIABLES_def
           split: option.splits if_splits prod.splits outcome.splits)

text \<open>
  With the struct present the statuses of the argument checks are as claim C6 has them: a
  null truth table gives \<open>STATUS_NULL_ARGUMENT\<close> and nothing else does, and with a truth
  table \<open>STATUS_TOO_FEW_VARIABLES\<close> is returned exactly for \<open>numVars < 1\<close> and
  \<open>STATUS_TOO_MANY_VARIABLES\<close> exactly for \<open>numVars\<close> above \<open>MAX_NUM_VARIABLES\<close>.
\<close>

theorem argument_statuses:
  "ReduceLogic heap None (Some sop)
     = Returns (STATUS_NULL_ARGUMENT, sop\<lparr>numTerms := 0, terms := None, dontCares := None\<rparr>)
   \<and> ((\<exists>s. ReduceLogic heap truthTable (Some sop) = Returns (STATUS_NULL_ARGUMENT, s))
        \<longleftrightarrow> truthTable = None)
   \<and> ((\<exists>s. ReduceLogic heap (Some tt) (Some sop) = Returns (STATUS_TOO_FEW_VARIABLES, s))
        \<longleftrightarrow> numVars sop < 1)
   \<and> ((\<exists>s. ReduceLogic heap (Some tt) (Some sop) = Returns (STATUS_TOO_MANY_VARIABLES, s))
        \<longleftrightarrow> MAX_NUM_VARIABLES < numVars sop)"
  by (intro conjI argument_checks)

theorem argument_statuses_witness:
  "(\<exists>s. ReduceLogic (\<lambda>k. True) (Some [])
          (Some \<lparr>numVars = 0, numTerms = 0, terms = None, dontCares = None, equation = None\<rparr>)
        = Returns (STATUS_TOO_FEW_VARIABLES, s))
   \<and> (\<exists>s. ReduceLogic (\<lambda>k. True) (Some [])
             (Some \<lparr>numVars = 33, numTerms = 0, terms = None, dontCares = None, equation = None\<rparr>)
           = Returns (STATUS_TOO_MANY_VARIABLES, s))"
proof -
  have few: "numVars \<lparr>numVars = 0, numTerms = 0, terms = None :: ulong list option,
                      dontCares = None :: ulong list option, equation = None :: string option\<rparr> < 1"
    by simp
  have many: "MAX_NUM_VARIABLES < numVars
          \<lparr>numVars = 33, numTerms = 0, terms = None :: ulong list option,
           dontCares = None :: ulong list option, equation = None :: string option\<rparr>"
    by (simp add: MAX_NUM_VARIABLES_def)
  note a = argument_statuses [THEN conjunct2, THEN conjunct2, THEN conjunct1, THEN iffD2, OF few]
  note b = argument_statuses [THEN conjunct2, THEN conjunct2, THEN conjunct2, THEN iffD2, OF many]
  from a [of "\<lambda>k. True" "[]"] b [of "\<lambda>k. True" "[]"] show ?thesis by (rule conjI)
qed

text \<open>
  Claim C9, where the code departs from it. \<open>numVars = MAX_NUM_VARIABLES\<close> passes the
  check against \<open>MAX_NUM_VARIABLES\<close>, but the size of the truth table is then computed as
  \<open>1 << numVars\<close> with a shift count equal to the width of the shifted \<open>int\<close>, which has
  no defined value, and no \<open>unsigned long\<close> is \<open>2 ^ numVars\<close>. So \<open>ReduceLogic\<close> has no
  defined outcome on any truth table.
\<close>

theorem width_boundary_undefined:
  "numVars sop = MAX_NUM_VARIABLES \<Longrightarrow>
     \<not> numVars sop > MAX_NUM_VARIABLES
     \<and> shiftOne (numVars sop) = None
     \<and> (\<forall>sizeTruthtable :: ulong. unat sizeTruthtable \<noteq> 2 ^ numVars sop)
     \<and> ReduceLogic heap (Some truthTable) (Some sop) = Undefined"
proof -
  assume n: "numVars sop = MAX_NUM_VARIABLES"
  have "unat s \<noteq> 2 ^ 32" for s :: ulong
    using unsigned_less [of s, where 'a = nat] by simp
  with n show ?thesis
    by (simp add: ReduceLogic_def MAX_NUM_VARIABLES_def shiftOne_def)
qed

text \<open>The truth table whose only true output is the last one.\<close>

theorem width_boundary_undefined_witness:
  "ReduceLogic (\<lambda>k. True) (Some (replicate (2 ^ 32 - 1) LOGIC_DONT_CARE @ [LOGIC_TRUE]))
     (Some \<lparr>numVars = 32, numTerms = 0, terms = None, dontCares = None, equation = None\<rparr>)
   = Undefined"
  using width_boundary_undefined
    [of "\<lparr>numVars = 32, numTerms = 0, terms = None, dontCares = None, equation = None\<rparr>"
        "\<lambda>k. True" "replicate (2 ^ 32 - 1) LOGIC_DONT_CARE @ [LOGIC_TRUE]"]
  by (simp add: MAX_NUM_VARIABLES_def)

section \<open>The two evaluators\<close>






lemma firstMismatch_le: "i \<le> n \<Longrightarrow> firstMismatch n t dc input i \<le> n"
proof (induction n t dc input i rule: firstMismatch.induct)
  case (1 n t dc input i)
  then show ?case by (subst firstMismatch.simps) auto
qed



lemma shiftOne_minus_1: "n < 32 \<Longrightarrow> shiftOne n = Some p \<Longrightarrow> p - 1 = mask n"
  by (auto simp: shiftOne_def bitMask_def mask_eq_exp_minus_1)






end
